theory Spec2Isabelle
  imports Complex_Main "HOL-Library.Word" "HOL-Library.Sublist"
begin

section \<open>Machine types\<close>

text \<open>
  \<open>size_t\<close> is the 64-bit unsigned integer of the host; \<open>cl_int\<close> the 32-bit integer
  of the OpenCL headers (read signed with \<open>sint\<close>, unsigned with \<open>unat\<close>).
\<close>

type_synonym size_t = "64 word"
type_synonym cl_int = "32 word"

section \<open>Buffer states\<close>

text \<open>Modelled from the spec: the list states (\<open>PointListState\<close>, \<open>HipsListState\<close>),
  whose headers are missing, are buffer-states: a fixed maximum capacity \<open>cap\<close> and a
  valid count \<open>n\<close>.\<close>

record list_state =
  cap :: size_t
  n :: size_t

text \<open>Modelled from the spec: \<open>getCount\<close> of a list state (its header is missing)
  reads the valid count \<open>n\<close> of the buffer-state.\<close>

definition getCount :: "list_state \<Rightarrow> size_t" where
  "getCount b = n b"

text \<open>Modelled from the spec: \<open>setCount\<close> of a list state (its header is missing)
  overwrites the valid count \<open>n\<close> of the buffer-state and leaves the capacity alone.\<close>

definition setCount :: "size_t \<Rightarrow> list_state \<Rightarrow> list_state" where
  "setCount c b = b\<lparr>n := c\<rparr>"

section \<open>The descriptor steps\<close>

text \<open>
  What a step does to the outside world, in the order it does it: kernel arguments
  bound, counts read from and written to list states, kernels put on the in-order queue
  (with the global and the local work size; \<open>None\<close> is \<open>cl::NullRange\<close>).
\<close>

datatype kernel_arg = ImageArg | PointsBuffer | HipsBuffer | Offset int int

datatype effect =
    SetArg nat kernel_arg
  | GetCount size_t
  | SetCount size_t
  | EnqueueNDRangeKernel size_t "size_t option"

text \<open>
  A step object with the states it refers to. The point list and the descriptor list have
  different classes in the source, so they are two distinct objects. Back-end calls are
  taken to succeed: a failing one raises \<open>cl::Error\<close> out of the step.
\<close>

record hips_step =
  i_points :: list_state
  o_hips :: list_state
  effects :: "effect list"

definition kernel_setArg :: "nat \<Rightarrow> kernel_arg \<Rightarrow> hips_step \<Rightarrow> hips_step" where
  "kernel_setArg i a s = s\<lparr>effects := effects s @ [SetArg i a]\<rparr>"

definition i_points_getCount :: "hips_step \<Rightarrow> size_t \<times> hips_step" where
  "i_points_getCount s =
     (getCount (i_points s), s\<lparr>effects := effects s @ [GetCount (getCount (i_points s))]\<rparr>)"

definition o_hips_setCount :: "size_t \<Rightarrow> hips_step \<Rightarrow> hips_step" where
  "o_hips_setCount c s =
     s\<lparr>o_hips := setCount c (o_hips s), effects := effects s @ [SetCount c]\<rparr>"

definition enqueueNDRangeKernel :: "size_t \<Rightarrow> size_t option \<Rightarrow> hips_step \<Rightarrow> hips_step" where
  "enqueueNDRangeKernel global local s =
     s\<lparr>effects := effects s @ [EnqueueNDRangeKernel global local]\<rparr>"

text \<open>\<open>HipsGrayStep::execute\<close>.\<close>

definition HipsGrayStep_execute :: "hips_step \<Rightarrow> hips_step" where
  "HipsGrayStep_execute s0 =
     (let s1 = kernel_setArg 0 ImageArg s0;
          s2 = kernel_setArg 1 PointsBuffer s1;
          s3 = kernel_setArg 2 HipsBuffer s2;
          s4 = kernel_setArg 3 (Offset 0 0) s3;
          (np, s5) = i_points_getCount s4;
          np_64 = (np div 64) * 64;
          s6 = o_hips_setCount np_64 s5
      in enqueueNDRangeKernel np_64 (Some 64) s6)"

text \<open>\<open>HipsRichStep::execute\<close>.\<close>

definition HipsRichStep_execute :: "hips_step \<Rightarrow> hips_step" where
  "HipsRichStep_execute s0 =
     (let s1 = kernel_setArg 0 ImageArg s0;
          s2 = kernel_setArg 1 PointsBuffer s1;
          s3 = kernel_setArg 2 HipsBuffer s2;
          (np, s4) = i_points_getCount s3;
          s5 = o_hips_setCount np s4
      in enqueueNDRangeKernel np None s5)"

section \<open>Expectations\<close>

text \<open>
  The exceptions of the program: \<open>ExpectationError\<close> (a \<open>std::invalid_argument\<close>) with
  its message, and the OpenCL binding's \<open>cl::Error\<close> with \<open>what()\<close> and \<open>err()\<close>.
\<close>

datatype exn = ExpectationError string | ClError string int

text \<open>\<open>expect\<close>: a function that throws is a function into \<open>exn + unit\<close>.\<close>

definition expect :: "string \<Rightarrow> bool \<Rightarrow> exn + unit" where
  "expect message state =
     (if state = False then Inl (ExpectationError message) else Inr ())"

text \<open>
  \<open>cudaError_t\<close> and \<open>cudaSuccess\<close> come from the CUDA run-time headers: an enumeration
  whose success value is 0.
\<close>

type_synonym cudaError_t = int

definition cudaSuccess :: cudaError_t where
  "cudaSuccess = 0"

definition cutry :: "cudaError_t \<Rightarrow> exn + unit" where
  "cutry error =
     (if error \<noteq> cudaSuccess then Inl (ExpectationError ''CUDA call failed'') else Inr ())"

section \<open>The pose pipeline of the test program\<close>

subsection \<open>Calls on the worker\<close>

text \<open>
  The states of \<open>testPipeline\<close> that the pose solve uses, by their names, and the step
  objects built on them: a step is its class (with its template argument) and the states
  it is constructed with, in the order of the constructor call.
\<close>

datatype state_name =
    uvquv | uvquv_mix | hypo_m | hypo_a | hypo_b | hypo_x | hypo_cam
  | hypo_scores | hypo_best | test_uvs

datatype step =
    PoseUvqWlsStep state_name state_name state_name state_name
  | CholeskyStep nat state_name state_name state_name
  | SE3ExpStep state_name state_name
  | MatMulStep nat state_name state_name
  | SE3ScoreStep state_name state_name state_name
  | SE3Run1Step state_name state_name state_name state_name

definition runWls :: step where
  "runWls = PoseUvqWlsStep uvquv_mix hypo_m hypo_a hypo_b"

definition runCholesky :: step where
  "runCholesky = CholeskyStep 6 hypo_a hypo_b hypo_x"

definition runSe3Exp :: step where
  "runSe3Exp = SE3ExpStep hypo_x hypo_cam"

definition runMul :: step where
  "runMul = MatMulStep 4 hypo_cam hypo_m"

definition runSe3Score :: step where
  "runSe3Score = SE3ScoreStep uvquv hypo_cam hypo_scores"

definition runSe3One :: step where
  "runSe3One = SE3Run1Step uvquv hypo_cam hypo_best test_uvs"

text \<open>
  The calls made on the steps and on the worker. \<open>WorkerStep::measure\<close> and the step
  classes are not among the sources at hand, so what a call does is a parameter: a
  worker maps a call and the contents of the device to the new contents, or to the
  exception the call raises. The argument of \<open>measure\<close> is \<open>None\<close> where the source
  leaves it to the default.
\<close>

datatype call = Measure step "int option" | Finish | HypoBestSetCount cl_int

type_synonym 's worker = "call \<Rightarrow> 's \<Rightarrow> exn + 's"

text \<open>
  A run carries the calls made so far and either the states or the exception that ended
  it. \<open>invoke\<close> makes one call; \<open>then_do\<close> is the sequencing of statements: nothing
  runs after an exception.
\<close>

definition invoke :: "'s worker \<Rightarrow> call \<Rightarrow> call list \<times> 's \<Rightarrow> call list \<times> (exn + 's)" where
  "invoke w c ts = (fst ts @ [c], w c (snd ts))"

definition then_do ::
  "call list \<times> (exn + 's) \<Rightarrow> (call list \<times> 's \<Rightarrow> call list \<times> (exn + 's)) \<Rightarrow> call list \<times> (exn + 's)" where
  "then_do r f = (case snd r of Inl e \<Rightarrow> (fst r, Inl e) | Inr s \<Rightarrow> f (fst r, s))"

subsection \<open>The refinement loop\<close>

text \<open>The body of the loop \<open>for (int i = 0; i < 10; i++)\<close> of \<open>testPipeline\<close>.\<close>

definition refine_body :: "'s worker \<Rightarrow> call list \<times> 's \<Rightarrow> call list \<times> (exn + 's)" where
  "refine_body w ts =
     then_do (then_do (then_do
       (invoke w (Measure runWls None) ts)
       (invoke w (Measure runCholesky None)))
       (invoke w (Measure runSe3Exp None)))
       (invoke w (Measure runMul (Some 1)))"

function refine_loop :: "'s worker \<Rightarrow> int \<Rightarrow> call list \<times> 's \<Rightarrow> call list \<times> (exn + 's)" where
  "refine_loop w i ts =
     (if i < 10 then then_do (refine_body w ts) (refine_loop w (i + 1))
      else (fst ts, Inr (snd ts)))"
  by pat_completeness auto
termination
  by (relation "measure (\<lambda>(w, i, ts). nat (10 - i))") auto

declare refine_loop.simps [simp del]

definition refine :: "'s worker \<Rightarrow> 's \<Rightarrow> call list \<times> (exn + 's)" where
  "refine w s = refine_loop w 0 ([], s)"

text \<open>One cycle of the refinement, as the calls it makes.\<close>

definition cycle :: "call list" where
  "cycle = [Measure runWls None, Measure runCholesky None, Measure runSe3Exp None,
            Measure runMul (Some 1)]"

text \<open>
  What it is to perform a list of calls in order: each call is applied by the worker to
  the contents the call before it has left, up to the first call that raises.
  \<open>run_calls\<close> is the outcome, \<open>calls_made\<close> the calls that were reached.
\<close>

fun run_calls :: "'s worker \<Rightarrow> call list \<Rightarrow> 's \<Rightarrow> exn + 's" where
  "run_calls w [] s = Inr s"
| "run_calls w (c # cs) s = (case w c s of Inl e \<Rightarrow> Inl e | Inr s' \<Rightarrow> run_calls w cs s')"

fun calls_made :: "'s worker \<Rightarrow> call list \<Rightarrow> 's \<Rightarrow> call list" where
  "calls_made w [] s = []"
| "calls_made w (c # cs) s =
     c # (case w c s of Inl e \<Rightarrow> [] | Inr s' \<Rightarrow> calls_made w cs s')"

subsection \<open>Scores and the selection of the best hypothesis\<close>

text \<open>
  A \<open>cl_float\<close> by its value. The selection only compares scores, and comparison of
  floating-point numbers is exact: \<open>fgt a b\<close> is \<open>a > b\<close>, false whenever an operand is
  not a number. (The running total and the average of the scores, which need rounding,
  are only printed and are left out.)
\<close>

datatype cl_float = NaN | NegInf | Fin real | PosInf

fun fgt :: "cl_float \<Rightarrow> cl_float \<Rightarrow> bool" where
  "fgt NaN b = False"
| "fgt a NaN = False"
| "fgt PosInf PosInf = False"
| "fgt PosInf b = True"
| "fgt NegInf b = False"
| "fgt (Fin x) NegInf = True"
| "fgt (Fin x) (Fin y) = (y < x)"
| "fgt (Fin x) PosInf = False"

text \<open>\<open>a <= b\<close> on floating-point numbers: false as well when an operand is not a number.\<close>

definition fle :: "cl_float \<Rightarrow> cl_float \<Rightarrow> bool" where
  "fle a b = (a \<noteq> NaN \<and> b \<noteq> NaN \<and> \<not> fgt a b)"

record score_stats =
  best :: cl_float
  non0 :: cl_int
  ibest :: cl_int

text \<open>
  The loop over the score list. The index is a \<open>size_t\<close> below the size of the vector;
  the assignment to the \<open>cl_int\<close> \<open>ibest\<close> keeps its low 32 bits.
\<close>

function score_loop :: "cl_float list \<Rightarrow> nat \<Rightarrow> score_stats \<Rightarrow> score_stats" where
  "score_loop hyposcores i st =
     (if i < length hyposcores then
        (let score = hyposcores ! i;
             st1 = st\<lparr>non0 := non0 st + (if fgt score (Fin 0) then 1 else 0)\<rparr>;
             st2 = (if fgt score (best st1) then st1\<lparr>best := score, ibest := of_nat i\<rparr> else st1)
         in score_loop hyposcores (i + 1) st2)
      else st)"
  by pat_completeness auto
termination
  by (relation "measure (\<lambda>(hyposcores, i, st). length hyposcores - i)") auto

declare score_loop.simps [simp del]

definition find_best :: "cl_float list \<Rightarrow> score_stats" where
  "find_best hyposcores = score_loop hyposcores 0 \<lparr>best = Fin 0, non0 = 0, ibest = 0\<rparr>"

text \<open>Assign and run the best matrix: the end of the statistics block.\<close>

definition run_best :: "'s worker \<Rightarrow> cl_float list \<Rightarrow> call list \<times> 's \<Rightarrow> call list \<times> (exn + 's)" where
  "run_best w hyposcores ts =
     then_do (then_do
       (invoke w Finish ts)
       (invoke w (HypoBestSetCount (ibest (find_best hyposcores)))))
       (invoke w (Measure runSe3One None))"

text \<open>
  What the specification asks of the selection: index \<open>k\<close> is the argmax of the scores,
  the first one where several attain the maximum. The score at \<open>k\<close> is a number, no
  score is greater than it, and no score before \<open>k\<close> is as large.
\<close>

definition first_argmax :: "cl_float list \<Rightarrow> nat \<Rightarrow> bool" where
  "first_argmax hs k =
     (k < length hs \<and> hs ! k \<noteq> NaN
      \<and> list_all (\<lambda>j. \<not> fgt (hs ! j) (hs ! k)) [0..<length hs]
      \<and> list_all (\<lambda>j. \<not> fle (hs ! k) (hs ! j)) [0..<k])"

subsection \<open>The device loop of main\<close>








section \<open>Sample inputs\<close>



text \<open>
  Two frames with the same 130 input points and different counts left in the output
  list by an earlier frame.
\<close>

definition frame_a :: hips_step where
  "frame_a = \<lparr>i_points = \<lparr>cap = 2048, n = 130\<rparr>, o_hips = \<lparr>cap = 2048, n = 2000\<rparr>, effects = []\<rparr>"

definition frame_b :: hips_step where
  "frame_b = \<lparr>i_points = \<lparr>cap = 2048, n = 130\<rparr>, o_hips = \<lparr>cap = 2048, n = 7\<rparr>, effects = []\<rparr>"

text \<open>A point list that holds more points than the descriptor list has room for.\<close>

definition overfull :: hips_step where
  "overfull = \<lparr>i_points = \<lparr>cap = 4096, n = 4096\<rparr>, o_hips = \<lparr>cap = 2048, n = 0\<rparr>, effects = []\<rparr>"

text \<open>A worker on which no call fails (its state counts the calls made).\<close>

definition steady :: "nat worker" where
  "steady c k = Inr (k + 1)"

text \<open>A worker on which the Cholesky step fails to launch.\<close>

definition breaks_at_cholesky :: "nat worker" where
  "breaks_at_cholesky c k =
     (if c = Measure runCholesky None then Inl (ClError ''clEnqueueNDRangeKernel'' (- 5))
      else Inr (k + 1))"

text \<open>Scores of which none is greater than zero, one of them not a number.\<close>

definition no_positive_scores :: "cl_float list" where
  "no_positive_scores = [Fin (-1), NaN, Fin 0]"

text \<open>Scores that are all below zero, the larger one second.\<close>

definition negative_scores :: "cl_float list" where
  "negative_scores = [Fin (-2), Fin (-1)]"

text \<open>
  Scores whose maximum is attained twice, at the indices 2 and 4, with a score that is
  not a number among them.
\<close>

definition mixed_scores :: "cl_float list" where
  "mixed_scores = [Fin 1, NaN, Fin 3, Fin (-1), Fin 3]"




section \<open>Properties of the descriptor steps\<close>

lemmas step_defs =
  kernel_setArg_def i_points_getCount_def o_hips_setCount_def enqueueNDRangeKernel_def
  getCount_def setCount_def

lemma gray_o_hips:
  "o_hips (HipsGrayStep_execute s) = (o_hips s)\<lparr>n := (n (i_points s) div 64) * 64\<rparr>"
  by (simp add: HipsGrayStep_execute_def step_defs Let_def)

lemma rich_o_hips:
  "o_hips (HipsRichStep_execute s) = (o_hips s)\<lparr>n := n (i_points s)\<rparr>"
  by (simp add: HipsRichStep_execute_def step_defs Let_def)

lemma unat_round_down_64:
  "unat (((x::size_t) div 64) * 64) = (unat x div 64) * 64"
proof -
  have "(unat x div 64) * 64 \<le> unat x"
    by simp
  also have "unat x < 2 ^ 64"
    using unsigned_less [of x] by simp
  finally have "(unat x div 64) * 64 < 2 ^ 64" .
  then show ?thesis
    by (simp add: unat_word_ariths unat_div)
qed

text \<open>
  C1. \<open>HipsGrayStep::execute\<close> sets the output count to the input count rounded down to
  a multiple of 64: it is a multiple of 64, it does not exceed the input count, and at
  most 63 trailing points are dropped.
\<close>

theorem HipsGrayStep_count:
  "unat (getCount (o_hips (HipsGrayStep_execute s))) = (unat (getCount (i_points s)) div 64) * 64
   \<and> 64 dvd unat (getCount (o_hips (HipsGrayStep_execute s)))
   \<and> getCount (o_hips (HipsGrayStep_execute s)) \<le> getCount (i_points s)
   \<and> unat (getCount (i_points s)) - unat (getCount (o_hips (HipsGrayStep_execute s))) \<le> 63"
proof -
  let ?np = "getCount (i_points s)"
  let ?out = "getCount (o_hips (HipsGrayStep_execute s))"
  have eq: "unat ?out = (unat ?np div 64) * 64"
    by (simp add: gray_o_hips getCount_def unat_round_down_64)
  have le: "unat ?out \<le> unat ?np"
    unfolding eq by simp
  have "unat ?np - unat ?out = unat ?np mod 64"
    unfolding eq by (simp add: minus_div_mult_eq_mod)
  then have drop: "unat ?np - unat ?out \<le> 63"
    by simp
  from eq le drop show ?thesis
    by (simp add: word_le_nat_alt)
qed

text \<open>
  C2. \<open>HipsRichStep::execute\<close> sets the output count to the input count itself, with
  no rounding.
\<close>

theorem HipsRichStep_count:
  "getCount (o_hips (HipsRichStep_execute s)) = getCount (i_points s)"
  by (simp add: rich_o_hips getCount_def)

lemma gray_effects:
  "effects (HipsGrayStep_execute s) =
     effects s @ [SetArg 0 ImageArg, SetArg 1 PointsBuffer, SetArg 2 HipsBuffer,
       SetArg 3 (Offset 0 0), GetCount (n (i_points s)),
       SetCount ((n (i_points s) div 64) * 64),
       EnqueueNDRangeKernel ((n (i_points s) div 64) * 64) (Some 64)]"
  by (simp add: HipsGrayStep_execute_def step_defs Let_def)

lemma rich_effects:
  "effects (HipsRichStep_execute s) =
     effects s @ [SetArg 0 ImageArg, SetArg 1 PointsBuffer, SetArg 2 HipsBuffer,
       GetCount (n (i_points s)), SetCount (n (i_points s)),
       EnqueueNDRangeKernel (n (i_points s)) None]"
  by (simp add: HipsRichStep_execute_def step_defs Let_def)

text \<open>
  C3. Both descriptor steps overwrite the count of the output list before they put the
  kernel on the queue, and the new count depends on the input count only: two runs from
  the same input count end with the same output count, whatever count the output list
  held before.
\<close>

theorem hips_steps_overwrite_count:
  assumes "getCount (i_points s) = getCount (i_points s')"
  shows "getCount (o_hips (HipsGrayStep_execute s)) = getCount (o_hips (HipsGrayStep_execute s'))
    \<and> getCount (o_hips (HipsRichStep_execute s)) = getCount (o_hips (HipsRichStep_execute s'))
    \<and> effects (HipsGrayStep_execute s) =
        effects s @ [SetArg 0 ImageArg, SetArg 1 PointsBuffer, SetArg 2 HipsBuffer,
          SetArg 3 (Offset 0 0), GetCount (getCount (i_points s)),
          SetCount (getCount (o_hips (HipsGrayStep_execute s))),
          EnqueueNDRangeKernel (getCount (o_hips (HipsGrayStep_execute s))) (Some 64)]
    \<and> effects (HipsRichStep_execute s) =
        effects s @ [SetArg 0 ImageArg, SetArg 1 PointsBuffer, SetArg 2 HipsBuffer,
          GetCount (getCount (i_points s)),
          SetCount (getCount (o_hips (HipsRichStep_execute s))),
          EnqueueNDRangeKernel (getCount (o_hips (HipsRichStep_execute s))) None]"
  using assms by (simp add: gray_o_hips rich_o_hips gray_effects rich_effects getCount_def)

theorem hips_steps_overwrite_count_witness:
  "getCount (o_hips frame_a) = 2000 \<and> getCount (o_hips frame_b) = 7
   \<and> getCount (o_hips (HipsGrayStep_execute frame_a)) = 128
   \<and> getCount (o_hips (HipsGrayStep_execute frame_b)) = 128
   \<and> getCount (o_hips (HipsRichStep_execute frame_a)) = 130
   \<and> getCount (o_hips (HipsRichStep_execute frame_b)) = 130"
proof -
  have h: "getCount (i_points frame_a) = getCount (i_points frame_b)"
    by (simp add: frame_a_def frame_b_def getCount_def)
  have a: "getCount (o_hips (HipsGrayStep_execute frame_a)) = 128"
    by (simp add: gray_o_hips getCount_def frame_a_def)
  have b: "getCount (o_hips (HipsRichStep_execute frame_a)) = 130"
    by (simp add: rich_o_hips getCount_def frame_a_def)
  have c: "getCount (o_hips frame_a) = 2000 \<and> getCount (o_hips frame_b) = 7"
    by (simp add: frame_a_def frame_b_def getCount_def)
  from hips_steps_overwrite_count [OF h] a b c show ?thesis
    by simp
qed

text \<open>
  C4. When the input count does not exceed the capacity of the output list, the output
  count after either step lies between 0 and that capacity, which the step leaves as it
  was.
\<close>

theorem hips_steps_count_within_cap:
  assumes "getCount (i_points s) \<le> cap (o_hips s)"
  shows "0 \<le> getCount (o_hips (HipsGrayStep_execute s))
    \<and> getCount (o_hips (HipsGrayStep_execute s)) \<le> cap (o_hips (HipsGrayStep_execute s))
    \<and> 0 \<le> getCount (o_hips (HipsRichStep_execute s))
    \<and> getCount (o_hips (HipsRichStep_execute s)) \<le> cap (o_hips (HipsRichStep_execute s))
    \<and> cap (o_hips (HipsGrayStep_execute s)) = cap (o_hips s)
    \<and> cap (o_hips (HipsRichStep_execute s)) = cap (o_hips s)"
proof -
  have "unat ((n (i_points s) div 64) * 64) \<le> unat (n (i_points s))"
    by (simp add: unat_round_down_64)
  then have "(n (i_points s) div 64) * 64 \<le> n (i_points s)"
    by (simp add: word_le_nat_alt)
  with assms show ?thesis
    by (simp add: gray_o_hips rich_o_hips getCount_def)
qed

theorem hips_steps_count_within_cap_witness:
  "getCount (i_points frame_a) \<le> cap (o_hips frame_a)
   \<and> getCount (o_hips (HipsGrayStep_execute frame_a)) \<le> cap (o_hips (HipsGrayStep_execute frame_a))
   \<and> getCount (o_hips (HipsRichStep_execute frame_a)) \<le> cap (o_hips (HipsRichStep_execute frame_a))
   \<and> cap (o_hips (HipsRichStep_execute frame_a)) = 2048"
proof -
  have h: "getCount (i_points frame_a) \<le> cap (o_hips frame_a)"
    by (simp add: frame_a_def getCount_def)
  have c: "cap (o_hips frame_a) = 2048"
    by (simp add: frame_a_def)
  from hips_steps_count_within_cap [OF h] h c show ?thesis
    by auto
qed

text \<open>
  Neither step compares the count with the capacity: from a point list that is larger
  than the output list, the count written exceeds the capacity.
\<close>

lemma hips_steps_do_not_check_capacity:
  "cap (o_hips (HipsGrayStep_execute overfull)) < getCount (o_hips (HipsGrayStep_execute overfull))
   \<and> cap (o_hips (HipsRichStep_execute overfull)) < getCount (o_hips (HipsRichStep_execute overfull))"
  by (simp add: gray_o_hips rich_o_hips getCount_def overfull_def)

section \<open>Properties of the expectations\<close>

text \<open>
  C7. \<open>expect message state\<close> throws an \<open>ExpectationError\<close> with that message exactly
  when \<open>state\<close> is false, and returns with no effect exactly when it is true.
\<close>

theorem expect_throws_iff:
  "(expect message state = Inl (ExpectationError message)) = (\<not> state)
   \<and> (expect message state = Inr ()) = state"
  by (simp add: expect_def)

text \<open>
  C8. \<open>cutry error\<close> throws an \<open>ExpectationError\<close> exactly when \<open>error\<close> is not
  \<open>cudaSuccess\<close>, always with the message "CUDA call failed", whatever the error
  code; on \<open>cudaSuccess\<close> it returns with no effect.
\<close>

theorem cutry_throws_iff:
  "(cutry error = Inl (ExpectationError ''CUDA call failed'')) = (error \<noteq> cudaSuccess)
   \<and> (cutry error = Inr ()) = (error = cudaSuccess)"
  by (simp add: cutry_def)

section \<open>Properties of the refinement loop\<close>

lemma refine_body_prefix:
  "\<exists>p. fst (refine_body w ts) = fst ts @ p \<and> prefix p cycle"
  by (auto simp: refine_body_def then_do_def invoke_def cycle_def prefix_Cons
      split: sum.splits)

lemma refine_body_returns:
  "snd (refine_body w ts) = Inr s' \<Longrightarrow> fst (refine_body w ts) = fst ts @ cycle"
  by (auto simp: refine_body_def then_do_def invoke_def cycle_def split: sum.splits)

lemma refine_body_total:
  assumes "\<forall>c x. \<exists>y. w c x = Inr y"
  shows "\<exists>s'. snd (refine_body w ts) = Inr s'"
proof -
  obtain s1 where s1: "w (Measure runWls None) (snd ts) = Inr s1"
    using assms by blast
  obtain s2 where s2: "w (Measure runCholesky None) s1 = Inr s2"
    using assms by blast
  obtain s3 where s3: "w (Measure runSe3Exp None) s2 = Inr s3"
    using assms by blast
  obtain s4 where s4: "w (Measure runMul (Some 1)) s3 = Inr s4"
    using assms by blast
  show ?thesis
    by (simp add: refine_body_def then_do_def invoke_def s1 s2 s3 s4)
qed

lemma replicate_cycle_step:
  "i < 10 \<Longrightarrow> concat (replicate (nat (10 - i)) cycle)
     = cycle @ concat (replicate (nat (10 - (i + 1))) cycle)"
proof -
  assume "i < 10"
  then have "nat (10 - i) = Suc (nat (10 - (i + 1)))"
    by simp
  then show ?thesis
    by simp
qed

lemma refine_loop_prefix:
  "\<exists>p. fst (refine_loop w i ts) = fst ts @ p
       \<and> prefix p (concat (replicate (nat (10 - i)) cycle))"
proof (induction w i ts rule: refine_loop.induct)
  case (1 w i ts)
  show ?case
  proof (cases "i < 10")
    case False
    then show ?thesis
      by (simp add: refine_loop.simps [of w i ts])
  next
    case True
    obtain p where p: "fst (refine_body w ts) = fst ts @ p" "prefix p cycle"
      using refine_body_prefix by blast
    show ?thesis
    proof (cases "snd (refine_body w ts)")
      case (Inl e)
      then have "fst (refine_loop w i ts) = fst ts @ p"
        using True p by (simp add: refine_loop.simps [of w i ts] then_do_def)
      moreover have "prefix p (concat (replicate (nat (10 - i)) cycle))"
        using p(2) True by (simp add: replicate_cycle_step)
      ultimately show ?thesis
        by blast
    next
      case (Inr s1)
      then have full: "fst (refine_body w ts) = fst ts @ cycle"
        by (rule refine_body_returns)
      obtain q where q:
        "fst (refine_loop w (i + 1) (fst (refine_body w ts), s1)) = fst (refine_body w ts) @ q"
        "prefix q (concat (replicate (nat (10 - (i + 1))) cycle))"
        using "1.IH" [OF True, of "(fst (refine_body w ts), s1)"] by auto
      have "fst (refine_loop w i ts) = fst ts @ (cycle @ q)"
        using True Inr q(1) full by (simp add: refine_loop.simps [of w i ts] then_do_def)
      moreover have "prefix (cycle @ q) (concat (replicate (nat (10 - i)) cycle))"
        using q(2) True by (simp add: replicate_cycle_step)
      ultimately show ?thesis
        by blast
    qed
  qed
qed

lemma refine_loop_returns:
  "snd (refine_loop w i ts) = Inr s' \<Longrightarrow>
     fst (refine_loop w i ts) = fst ts @ concat (replicate (nat (10 - i)) cycle)"
proof (induction w i ts rule: refine_loop.induct)
  case (1 w i ts)
  show ?case
  proof (cases "i < 10")
    case False
    then show ?thesis
      by (simp add: refine_loop.simps [of w i ts])
  next
    case True
    show ?thesis
    proof (cases "snd (refine_body w ts)")
      case (Inl e)
      then have "snd (refine_loop w i ts) = Inl e"
        using True by (simp add: refine_loop.simps [of w i ts] then_do_def)
      with "1.prems" show ?thesis
        by simp
    next
      case (Inr s1)
      then have full: "fst (refine_body w ts) = fst ts @ cycle"
        by (rule refine_body_returns)
      have unfold: "refine_loop w i ts = refine_loop w (i + 1) (fst (refine_body w ts), s1)"
        using True Inr by (simp add: refine_loop.simps [of w i ts] then_do_def)
      have "fst (refine_loop w (i + 1) (fst (refine_body w ts), s1))
          = fst (fst (refine_body w ts), s1) @ concat (replicate (nat (10 - (i + 1))) cycle)"
        using "1.prems" unfold by (intro "1.IH" [OF True]) simp
      then show ?thesis
        using unfold full True by (simp add: replicate_cycle_step)
    qed
  qed
qed

lemma refine_loop_total:
  assumes "\<forall>c x. \<exists>y. w c x = Inr y"
  shows "\<exists>s'. snd (refine_loop w i ts) = Inr s'"
  using assms
proof (induction w i ts rule: refine_loop.induct)
  case (1 w i ts)
  show ?case
  proof (cases "i < 10")
    case False
    then show ?thesis
      by (simp add: refine_loop.simps [of w i ts])
  next
    case True
    obtain s1 where s1: "snd (refine_body w ts) = Inr s1"
      using refine_body_total [OF "1.prems"] by blast
    have "refine_loop w i ts = refine_loop w (i + 1) (fst (refine_body w ts), s1)"
      using True s1 by (simp add: refine_loop.simps [of w i ts] then_do_def)
    then show ?thesis
      using "1.IH" [OF True "1.prems"] by simp
  qed
qed

text \<open>The loop performs its calls: it is the ten cycles applied in order by the worker.\<close>

lemma run_calls_append:
  "run_calls w (xs @ ys) s =
     (case run_calls w xs s of Inl e \<Rightarrow> Inl e | Inr s' \<Rightarrow> run_calls w ys s')"
  by (induction xs arbitrary: s) (auto split: sum.splits)

lemma calls_made_append:
  "calls_made w (xs @ ys) s =
     calls_made w xs s @
       (case run_calls w xs s of Inl e \<Rightarrow> [] | Inr s' \<Rightarrow> calls_made w ys s')"
  by (induction xs arbitrary: s) (auto split: sum.splits)

lemma refine_body_performs:
  "refine_body w ts = (fst ts @ calls_made w cycle (snd ts), run_calls w cycle (snd ts))"
  by (simp add: refine_body_def then_do_def invoke_def cycle_def split: sum.splits)

lemma refine_loop_performs:
  "refine_loop w i ts =
     (fst ts @ calls_made w (concat (replicate (nat (10 - i)) cycle)) (snd ts),
      run_calls w (concat (replicate (nat (10 - i)) cycle)) (snd ts))"
proof (induction w i ts rule: refine_loop.induct)
  case (1 w i ts)
  show ?case
  proof (cases "i < 10")
    case False
    then show ?thesis
      by (simp add: refine_loop.simps [of w i ts])
  next
    case True
    note body = refine_body_performs [of w ts]
    show ?thesis
    proof (cases "run_calls w cycle (snd ts)")
      case (Inl e)
      then show ?thesis
        using True body
        by (simp add: refine_loop.simps [of w i ts] then_do_def replicate_cycle_step
            run_calls_append calls_made_append)
    next
      case (Inr s1)
      have "refine_loop w i ts =
          refine_loop w (i + 1) (fst ts @ calls_made w cycle (snd ts), s1)"
        using True body Inr by (simp add: refine_loop.simps [of w i ts] then_do_def)
      then show ?thesis
        using True Inr "1.IH" [OF True, of "(fst ts @ calls_made w cycle (snd ts), s1)"]
        by (simp add: replicate_cycle_step run_calls_append calls_made_append)
    qed
  qed
qed

lemma run_calls_steady: "run_calls steady cs k = Inr (k + length cs)"
  by (induction cs arbitrary: k) (simp_all add: steady_def)

lemma calls_made_steady: "calls_made steady cs k = cs"
  by (induction cs arbitrary: k) (simp_all add: steady_def)

text \<open>A call that fails ends the loop where it is: no later call is made.\<close>

lemma refine_aborted:
  "refine breaks_at_cholesky 0 =
     ([Measure runWls None, Measure runCholesky None],
      Inl (ClError ''clEnqueueNDRangeKernel'' (- 5)))"
  by (simp add: refine_def refine_loop.simps [of _ 0] refine_body_def then_do_def invoke_def
      breaks_at_cholesky_def runWls_def runCholesky_def)

text \<open>
  C9. The refinement loop runs the cycle a fixed ten times, each time the
  linearization, the Cholesky solve, the exponential and the composition in this order.
  The exponential is the step built on \<open>hypo_x\<close>, the vector state the Cholesky step is
  built on with \<open>hypo_a\<close> and \<open>hypo_b\<close>; the composition is the step built on \<open>hypo_cam\<close>
  and on \<open>hypo_m\<close>, the matrix state the linearization is built on. The loop performs
  these forty calls: what it leaves on the device is what the worker makes of them,
  applied one after another, and the calls it makes are the ones so reached. A run that
  leaves the loop has made exactly these forty calls, one that a call aborts has made a
  prefix of them, and the loop is left whenever no call fails.
\<close>

theorem refinement_runs_ten_cycles:
  "cycle = [Measure (PoseUvqWlsStep uvquv_mix hypo_m hypo_a hypo_b) None,
            Measure (CholeskyStep 6 hypo_a hypo_b hypo_x) None,
            Measure (SE3ExpStep hypo_x hypo_cam) None,
            Measure (MatMulStep 4 hypo_cam hypo_m) (Some 1)]
   \<and> refine w s = (calls_made w (concat (replicate 10 cycle)) s,
                   run_calls w (concat (replicate 10 cycle)) s)
   \<and> prefix (fst (refine w s)) (concat (replicate 10 cycle))
   \<and> ((\<exists>s'. snd (refine w s) = Inr s') \<longrightarrow> fst (refine w s) = concat (replicate 10 cycle))
   \<and> ((\<forall>c x. \<exists>y. w c x = Inr y) \<longrightarrow> (\<exists>s'. snd (refine w s) = Inr s'))"
proof -
  have "refine w s = (calls_made w (concat (replicate 10 cycle)) s,
      run_calls w (concat (replicate 10 cycle)) s)"
    using refine_loop_performs [of w 0 "([], s)"] by (simp add: refine_def)
  moreover have "prefix (fst (refine w s)) (concat (replicate 10 cycle))"
    using refine_loop_prefix [of w 0 "([], s)"] by (auto simp: refine_def)
  moreover have "(\<exists>s'. snd (refine w s) = Inr s') \<longrightarrow> fst (refine w s) = concat (replicate 10 cycle)"
    using refine_loop_returns [of w 0 "([], s)"] by (auto simp: refine_def)
  moreover have "(\<forall>c x. \<exists>y. w c x = Inr y) \<longrightarrow> (\<exists>s'. snd (refine w s) = Inr s')"
    using refine_loop_total [of w 0 "([], s)"] by (auto simp: refine_def)
  ultimately show ?thesis
    by (simp add: cycle_def runWls_def runCholesky_def runSe3Exp_def runMul_def)
qed

theorem refinement_runs_ten_cycles_witness:
  "refine steady 0 = (concat (replicate 10 cycle), Inr 40)
   \<and> length (concat (replicate 10 cycle)) = 40"
proof -
  have ok: "\<forall>c x. \<exists>y. steady c x = Inr y"
    by (simp add: steady_def)
  have len: "length (concat (replicate 10 cycle)) = 40"
    by (simp add: cycle_def numeral_eq_Suc)
  from refinement_runs_ten_cycles [of steady 0] ok
  have "refine steady 0 = (calls_made steady (concat (replicate 10 cycle)) 0,
      run_calls steady (concat (replicate 10 cycle)) 0)"
    by blast
  then show ?thesis
    using len by (simp add: run_calls_steady calls_made_steady)
qed

section \<open>Properties of the selection\<close>

text \<open>The comparison is a strict order, total on the scores that are numbers.\<close>

lemma fgt_irrefl: "\<not> fgt a a"
  by (cases a) simp_all

lemma fgt_asym: "fgt a b \<Longrightarrow> \<not> fgt b a"
  by (cases a; cases b) simp_all

lemma fgt_trans: "fgt a b \<Longrightarrow> fgt b c \<Longrightarrow> fgt a c"
  by (cases a; cases b; cases c) simp_all

lemma fgt_not_fle: "fgt y b \<Longrightarrow> \<not> fgt x b \<Longrightarrow> \<not> fle y x"
  by (cases x; cases y; cases b) (simp_all add: fle_def)

lemma score_loop_done: "\<not> i < length hs \<Longrightarrow> score_loop hs i st = st"
  by (simp add: score_loop.simps [of hs i st])

lemma score_loop_keep:
  "i < length hs \<Longrightarrow> \<not> fgt (hs ! i) (best st) \<Longrightarrow>
     score_loop hs i st =
       score_loop hs (i + 1) (st\<lparr>non0 := non0 st + (if fgt (hs ! i) (Fin 0) then 1 else 0)\<rparr>)"
  by (simp add: score_loop.simps [of hs i st] Let_def)

lemma score_loop_unbeaten:
  "(\<forall>j. i \<le> j \<and> j < length hs \<longrightarrow> \<not> fgt (hs ! j) (best st)) \<Longrightarrow>
     best (score_loop hs i st) = best st \<and> ibest (score_loop hs i st) = ibest st"
proof (induction hs i st rule: score_loop.induct)
  case (1 hs i st)
  show ?case
  proof (cases "i < length hs")
    case False
    then show ?thesis
      by (simp add: score_loop_done)
  next
    case True
    let ?st1 = "st\<lparr>non0 := non0 st + (if fgt (hs ! i) (Fin 0) then 1 else 0)\<rparr>"
    have keep: "\<not> fgt (hs ! i) (best st)"
      using "1.prems" True by simp
    have "best (score_loop hs (i + 1) ?st1) = best ?st1
        \<and> ibest (score_loop hs (i + 1) ?st1) = ibest ?st1"
      using "1.prems" keep by (intro "1.IH" [OF True refl refl]) auto
    then show ?thesis
      using True keep by (simp add: score_loop_keep)
  qed
qed

lemma score_loop_non0:
  "non0 (score_loop hs i st) =
     non0 st + of_nat (length (filter (\<lambda>s. fgt s (Fin 0)) (drop i hs)))"
proof (induction hs i st rule: score_loop.induct)
  case (1 hs i st)
  show ?case
  proof (cases "i < length hs")
    case False
    then show ?thesis
      by (simp add: score_loop_done)
  next
    case True
    let ?st1 = "st\<lparr>non0 := non0 st + (if fgt (hs ! i) (Fin 0) then 1 else 0)\<rparr>"
    let ?st2 = "if fgt (hs ! i) (best ?st1) then ?st1\<lparr>best := hs ! i, ibest := of_nat i\<rparr> else ?st1"
    have step: "score_loop hs i st = score_loop hs (i + 1) ?st2"
      using True by (simp add: score_loop.simps [of hs i st] Let_def)
    have ih: "non0 (score_loop hs (i + 1) ?st2) =
        non0 ?st2 + of_nat (length (filter (\<lambda>s. fgt s (Fin 0)) (drop (i + 1) hs)))"
      by (rule "1.IH" [OF True refl refl refl])
    have d: "drop i hs = hs ! i # drop (i + 1) hs"
      using True by (simp add: Cons_nth_drop_Suc)
    show ?thesis
      unfolding step ih d by simp
  qed
qed

lemma score_loop_first_max:
  assumes "\<exists>j. i \<le> j \<and> j < length hs \<and> fgt (hs ! j) (best st)"
  shows "\<exists>k. i \<le> k \<and> k < length hs
      \<and> ibest (score_loop hs i st) = of_nat k \<and> best (score_loop hs i st) = hs ! k
      \<and> (\<forall>j. i \<le> j \<and> j < length hs \<longrightarrow> \<not> fgt (hs ! j) (hs ! k))
      \<and> (\<forall>j. i \<le> j \<and> j < k \<longrightarrow> \<not> fle (hs ! k) (hs ! j))
      \<and> fgt (hs ! k) (best st)"
  using assms
proof (induction hs i st rule: score_loop.induct)
  case (1 hs i st)
  from "1.prems" have True: "i < length hs"
    by auto
  let ?x = "hs ! i"
  let ?st1 = "st\<lparr>non0 := non0 st + (if fgt ?x (Fin 0) then 1 else 0)\<rparr>"
  let ?st2 = "if fgt ?x (best ?st1) then ?st1\<lparr>best := ?x, ibest := of_nat i\<rparr> else ?st1"
  have step: "score_loop hs i st = score_loop hs (i + 1) ?st2"
    using True by (simp add: score_loop.simps [of hs i st] Let_def)
  have best2: "best ?st2 = (if fgt ?x (best st) then ?x else best st)"
    by simp
  have ibest2: "ibest ?st2 = (if fgt ?x (best st) then of_nat i else ibest st)"
    by simp
  show ?case
  proof (cases "\<exists>j. i + 1 \<le> j \<and> j < length hs \<and> fgt (hs ! j) (best ?st2)")
    case later: True
    from "1.IH" [OF True refl refl refl later]
    obtain k where k: "i + 1 \<le> k" "k < length hs"
      "ibest (score_loop hs (i + 1) ?st2) = of_nat k"
      "best (score_loop hs (i + 1) ?st2) = hs ! k"
      "\<forall>j. i + 1 \<le> j \<and> j < length hs \<longrightarrow> \<not> fgt (hs ! j) (hs ! k)"
      "\<forall>j. i + 1 \<le> j \<and> j < k \<longrightarrow> \<not> fle (hs ! k) (hs ! j)"
      "fgt (hs ! k) (best ?st2)"
      by blast
    have not_over: "\<not> fgt ?x (hs ! k)"
    proof (cases "fgt ?x (best st)")
      case True
      with k(7) have "fgt (hs ! k) ?x" by simp
      then show ?thesis by (rule fgt_asym)
    next
      case False
      with k(7) have over: "fgt (hs ! k) (best st)" by simp
      show ?thesis
      proof
        assume "fgt ?x (hs ! k)"
        from fgt_trans [OF this over] False show False by simp
      qed
    qed
    have not_le: "\<not> fle (hs ! k) ?x"
    proof (cases "fgt ?x (best st)")
      case True
      with k(7) have "fgt (hs ! k) ?x" by simp
      then show ?thesis by (simp add: fle_def)
    next
      case False
      with k(7) have "fgt (hs ! k) (best st)" by simp
      from fgt_not_fle [OF this False] show ?thesis .
    qed
    have over_best: "fgt (hs ! k) (best st)"
    proof (cases "fgt ?x (best st)")
      case True
      with k(7) have "fgt (hs ! k) ?x" by simp
      from fgt_trans [OF this True] show ?thesis .
    next
      case False
      with k(7) show ?thesis by simp
    qed
    have none_greater: "\<forall>j. i \<le> j \<and> j < length hs \<longrightarrow> \<not> fgt (hs ! j) (hs ! k)"
    proof (intro allI impI)
      fix j assume j: "i \<le> j \<and> j < length hs"
      show "\<not> fgt (hs ! j) (hs ! k)"
      proof (cases "j = i")
        case True
        with not_over show ?thesis by simp
      next
        case False
        with j have "i + 1 \<le> j \<and> j < length hs" by simp
        with k(5) show ?thesis by blast
      qed
    qed
    have earlier_less: "\<forall>j. i \<le> j \<and> j < k \<longrightarrow> \<not> fle (hs ! k) (hs ! j)"
    proof (intro allI impI)
      fix j assume j: "i \<le> j \<and> j < k"
      show "\<not> fle (hs ! k) (hs ! j)"
      proof (cases "j = i")
        case True
        with not_le show ?thesis by simp
      next
        case False
        with j have "i + 1 \<le> j \<and> j < k" by simp
        with k(6) show ?thesis by blast
      qed
    qed
    have "i \<le> k" using k(1) by simp
    with k(2,3,4) none_greater earlier_less over_best show ?thesis
      unfolding step by blast
  next
    case none: False
    then have unbeaten: "\<forall>j. i + 1 \<le> j \<and> j < length hs \<longrightarrow> \<not> fgt (hs ! j) (best ?st2)"
      by blast
    from score_loop_unbeaten [OF unbeaten]
    have res: "best (score_loop hs (i + 1) ?st2) = best ?st2"
      "ibest (score_loop hs (i + 1) ?st2) = ibest ?st2"
      by blast+
    have x_over: "fgt ?x (best st)"
    proof (rule ccontr)
      assume no: "\<not> fgt ?x (best st)"
      from "1.prems" obtain j where j: "i \<le> j" "j < length hs" "fgt (hs ! j) (best st)"
        by blast
      with no have "j \<noteq> i" by auto
      with j have "i + 1 \<le> j \<and> j < length hs \<and> fgt (hs ! j) (best ?st2)"
        using no by simp
      with none show False by blast
    qed
    have none_greater: "\<forall>j. i \<le> j \<and> j < length hs \<longrightarrow> \<not> fgt (hs ! j) ?x"
    proof (intro allI impI)
      fix j assume j: "i \<le> j \<and> j < length hs"
      show "\<not> fgt (hs ! j) ?x"
      proof (cases "j = i")
        case True
        then show ?thesis by (simp add: fgt_irrefl)
      next
        case False
        with j have "i + 1 \<le> j \<and> j < length hs" by simp
        with unbeaten x_over show ?thesis by simp
      qed
    qed
    have "ibest (score_loop hs i st) = of_nat i" "best (score_loop hs i st) = ?x"
      unfolding step res using x_over by simp_all
    with True none_greater x_over show ?thesis
      by (intro exI [of _ i]) auto
  qed
qed

lemma sint_index:
  assumes "k < 2 ^ 31"
  shows "sint (of_nat k :: cl_int) = int k"
proof -
  have "(0::int) \<le> 2 ^ 31"
    by simp
  then have lo: "- (2 ^ 31) \<le> int k"
    by linarith
  have "int k < int (2 ^ 31)"
    using assms by (simp only: of_nat_less_iff)
  then have hi: "int k < 2 ^ 31"
    by simp
  have "sint (of_nat k :: cl_int) = signed_take_bit 31 (int k)"
    by (simp add: signed_of_nat)
  also have "\<dots> = int k"
    using lo hi by (rule signed_take_bit_int_eq_self)
  finally show ?thesis .
qed

lemma nth_range_all:
  "list_all P [0..<m] = (\<forall>j. 0 \<le> j \<and> j < m \<longrightarrow> P j)"
  by (auto simp: list_all_iff)

text \<open>At most one index is the first argmax.\<close>

lemma first_argmax_unique:
  assumes "first_argmax hs k" and "first_argmax hs k'"
  shows "k = k'"
proof -
  have no: "\<not> (first_argmax hs a \<and> first_argmax hs b \<and> a < b)" for a b
  proof
    assume h: "first_argmax hs a \<and> first_argmax hs b \<and> a < b"
    then have "\<not> fle (hs ! b) (hs ! a)" "hs ! a \<noteq> NaN" "hs ! b \<noteq> NaN"
      by (simp_all add: first_argmax_def nth_range_all)
    then have "fgt (hs ! b) (hs ! a)"
      by (simp add: fle_def)
    moreover from h have "b < length hs" "\<forall>j. 0 \<le> j \<and> j < length hs \<longrightarrow> \<not> fgt (hs ! j) (hs ! a)"
      by (simp_all add: first_argmax_def nth_range_all)
    ultimately show False
      by simp
  qed
  from no [of k k'] no [of k' k] assms show ?thesis
    by (cases k k' rule: linorder_cases) simp_all
qed

lemma find_best_none_positive:
  assumes "\<forall>s\<in>set hs. \<not> fgt s (Fin 0)"
  shows "ibest (find_best hs) = 0 \<and> best (find_best hs) = Fin 0"
proof -
  have "\<forall>j. 0 \<le> j \<and> j < length hs \<longrightarrow>
      \<not> fgt (hs ! j) (best \<lparr>best = Fin 0, non0 = 0, ibest = 0\<rparr>)"
    using assms by simp
  from score_loop_unbeaten [OF this] show ?thesis
    by (simp add: find_best_def)
qed

lemma find_best_some_positive:
  assumes "\<exists>s\<in>set hs. fgt s (Fin 0)"
    and "length hs < 2 ^ 31"
  shows "first_argmax hs (nat (sint (ibest (find_best hs))))
    \<and> best (find_best hs) = hs ! nat (sint (ibest (find_best hs)))"
proof -
  let ?st0 = "\<lparr>best = Fin 0, non0 = 0, ibest = 0\<rparr>"
  from assms(1) obtain j where "j < length hs" "fgt (hs ! j) (Fin 0)"
    by (auto simp: in_set_conv_nth)
  then have some: "\<exists>j. 0 \<le> j \<and> j < length hs \<and> fgt (hs ! j) (best ?st0)"
    by auto
  from score_loop_first_max [OF some]
  obtain k where k: "k < length hs"
    "ibest (score_loop hs 0 ?st0) = of_nat k"
    "best (score_loop hs 0 ?st0) = hs ! k"
    "\<forall>j. 0 \<le> j \<and> j < length hs \<longrightarrow> \<not> fgt (hs ! j) (hs ! k)"
    "\<forall>j. 0 \<le> j \<and> j < k \<longrightarrow> \<not> fle (hs ! k) (hs ! j)"
    "fgt (hs ! k) (best ?st0)"
    by blast
  have "k < 2 ^ 31"
    using k(1) assms(2) by simp
  then have idx: "nat (sint (ibest (find_best hs))) = k"
    using k(2) by (simp add: find_best_def sint_index)
  have "hs ! k \<noteq> NaN"
    using k(6) by (cases "hs ! k") simp_all
  then have "first_argmax hs k"
    using k(1,4,5) by (simp add: first_argmax_def nth_range_all)
  with idx k(3) show ?thesis
    by (simp add: find_best_def)
qed

text \<open>
  C5, as far as it holds. When at least one score is greater than zero (and the list
  has fewer than \<open>2 ^ 31\<close> entries, so that the index fits the \<open>cl_int\<close>), the index
  selected is the first argmax of the scores, the only index that is, and the best score
  reported is the score at that index. When no score is greater than zero, index 0 is
  selected and the best score reported is 0, whatever the scores are.
\<close>

theorem find_best_first_argmax:
  "(length hs < 2 ^ 31 \<and> (\<exists>s\<in>set hs. fgt s (Fin 0)) \<longrightarrow>
      first_argmax hs (nat (sint (ibest (find_best hs))))
      \<and> (\<forall>k. first_argmax hs k \<longrightarrow> k = nat (sint (ibest (find_best hs))))
      \<and> best (find_best hs) = hs ! nat (sint (ibest (find_best hs))))
   \<and> ((\<forall>s\<in>set hs. \<not> fgt s (Fin 0)) \<longrightarrow>
      ibest (find_best hs) = 0 \<and> best (find_best hs) = Fin 0)"
proof (intro conjI impI)
  assume h: "length hs < 2 ^ 31 \<and> (\<exists>s\<in>set hs. fgt s (Fin 0))"
  then have sel: "first_argmax hs (nat (sint (ibest (find_best hs))))
      \<and> best (find_best hs) = hs ! nat (sint (ibest (find_best hs)))"
    by (intro find_best_some_positive) simp_all
  then show "first_argmax hs (nat (sint (ibest (find_best hs))))"
    by simp
  from sel show "best (find_best hs) = hs ! nat (sint (ibest (find_best hs)))"
    by simp
  from sel show "\<forall>k. first_argmax hs k \<longrightarrow> k = nat (sint (ibest (find_best hs)))"
    by (blast intro: first_argmax_unique)
next
  assume "\<forall>s\<in>set hs. \<not> fgt s (Fin 0)"
  then show "ibest (find_best hs) = 0" "best (find_best hs) = Fin 0"
    using find_best_none_positive by blast+
qed

theorem find_best_first_argmax_witness:
  "first_argmax mixed_scores 2 \<and> \<not> first_argmax mixed_scores 1
   \<and> \<not> first_argmax mixed_scores 4
   \<and> mixed_scores ! 2 = Fin 3 \<and> mixed_scores ! 4 = Fin 3
   \<and> nat (sint (ibest (find_best mixed_scores))) = 2
   \<and> best (find_best mixed_scores) = Fin 3
   \<and> ibest (find_best no_positive_scores) = 0
   \<and> best (find_best no_positive_scores) = Fin 0"
proof -
  have pos: "length mixed_scores < 2 ^ 31 \<and> (\<exists>s\<in>set mixed_scores. fgt s (Fin 0))"
    by (simp add: mixed_scores_def)
  have none: "\<forall>s\<in>set no_positive_scores. \<not> fgt s (Fin 0)"
    by (simp add: no_positive_scores_def)
  from find_best_first_argmax [of mixed_scores] pos
  have sel: "first_argmax mixed_scores (nat (sint (ibest (find_best mixed_scores))))"
    and only: "\<forall>k. first_argmax mixed_scores k \<longrightarrow>
        k = nat (sint (ibest (find_best mixed_scores)))"
    and top: "best (find_best mixed_scores) =
        mixed_scores ! nat (sint (ibest (find_best mixed_scores)))"
    by blast+
  have two: "first_argmax mixed_scores 2"
    by (simp add: first_argmax_def mixed_scores_def fle_def upt_conv_Cons)
  with only have idx: "nat (sint (ibest (find_best mixed_scores))) = 2"
    by auto
  from only idx have others: "\<not> first_argmax mixed_scores 1" "\<not> first_argmax mixed_scores 4"
    by auto
  from top idx have b: "best (find_best mixed_scores) = Fin 3"
    by (simp add: mixed_scores_def)
  from find_best_first_argmax [of no_positive_scores] none
  have zero: "ibest (find_best no_positive_scores) = 0 \<and> best (find_best no_positive_scores) = Fin 0"
    by blast
  from two others idx b zero show ?thesis
    by (simp add: mixed_scores_def)
qed

lemma find_best_negative_scores:
  "best (find_best negative_scores) = Fin 0 \<and> ibest (find_best negative_scores) = 0"
proof -
  have "\<forall>j. 0 \<le> j \<and> j < length negative_scores \<longrightarrow>
      \<not> fgt (negative_scores ! j) (best \<lparr>best = Fin 0, non0 = 0, ibest = 0\<rparr>)"
    by (auto simp: negative_scores_def less_Suc_eq)
  from score_loop_unbeaten [OF this] show ?thesis
    by (simp add: find_best_def)
qed

text \<open>
  C5 fails as it is stated: of the scores \<open>-2\<close> and \<open>-1\<close> the argmax is index 1, and
  index 0 is selected.
\<close>

theorem find_best_argmax_counterexample:
  "\<not> first_argmax negative_scores (nat (sint (ibest (find_best negative_scores))))"
proof -
  have "fgt (negative_scores ! 1) (negative_scores ! 0)"
    by (simp add: negative_scores_def)
  then have "\<not> first_argmax negative_scores 0"
    by (auto simp: first_argmax_def negative_scores_def)
  then show ?thesis
    by (simp add: find_best_negative_scores)
qed

lemma run_best_prefix:
  "\<exists>p. fst (run_best w hs ts) = fst ts @ p
     \<and> prefix p [Finish, HypoBestSetCount (ibest (find_best hs)), Measure runSe3One None]"
  by (auto simp: run_best_def then_do_def invoke_def prefix_Cons split: sum.splits)

lemma run_best_returns:
  "snd (run_best w hs ts) = Inr s' \<Longrightarrow>
     fst (run_best w hs ts) =
       fst ts @ [Finish, HypoBestSetCount (ibest (find_best hs)), Measure runSe3One None]"
  by (auto simp: run_best_def then_do_def invoke_def split: sum.splits)

lemma run_best_total:
  assumes "\<forall>c x. \<exists>y. w c x = Inr y"
  shows "\<exists>s'. snd (run_best w hs ts) = Inr s'"
proof -
  obtain s1 where s1: "w Finish (snd ts) = Inr s1"
    using assms by blast
  obtain s2 where s2: "w (HypoBestSetCount (ibest (find_best hs))) s1 = Inr s2"
    using assms by blast
  obtain s3 where s3: "w (Measure runSe3One None) s2 = Inr s3"
    using assms by blast
  show ?thesis
    by (simp add: run_best_def then_do_def invoke_def s1 s2 s3)
qed

lemma run_best_performs:
  "run_best w hs ts =
     (fst ts @ calls_made w
        [Finish, HypoBestSetCount (ibest (find_best hs)), Measure runSe3One None] (snd ts),
      run_calls w
        [Finish, HypoBestSetCount (ibest (find_best hs)), Measure runSe3One None] (snd ts))"
  by (simp add: run_best_def then_do_def invoke_def split: sum.splits)

lemma non0_counts_positive:
  "non0 (find_best hs) = of_nat (length (filter (\<lambda>s. fgt s (Fin 0)) hs))"
  by (simp add: find_best_def score_loop_non0)

text \<open>
  C10. When every score is less than or equal to zero, the loop leaves the best index
  at 0 and the best score at 0 and counts no score as non-zero (it counts the scores
  greater than zero, see \<open>non0_counts_positive\<close>); the count of \<open>hypo_best\<close> is set to 0
  and the single-hypothesis step is run, these calls being made in this order until one
  fails, and what they leave on the device being what the worker makes of them, applied
  one after another.
\<close>

theorem nonpositive_scores_select_first:
  assumes "\<forall>s\<in>set hs. fle s (Fin 0)"
  shows "ibest (find_best hs) = 0 \<and> best (find_best hs) = Fin 0 \<and> non0 (find_best hs) = 0
    \<and> prefix (fst (run_best w hs ([], s)))
         [Finish, HypoBestSetCount 0, Measure runSe3One None]
    \<and> ((\<exists>s'. snd (run_best w hs ([], s)) = Inr s') \<longrightarrow>
         fst (run_best w hs ([], s)) = [Finish, HypoBestSetCount 0, Measure runSe3One None])
    \<and> ((\<forall>c x. \<exists>y. w c x = Inr y) \<longrightarrow> (\<exists>s'. snd (run_best w hs ([], s)) = Inr s'))
    \<and> run_best w hs ([], s) =
        (calls_made w [Finish, HypoBestSetCount 0, Measure runSe3One None] s,
         run_calls w [Finish, HypoBestSetCount 0, Measure runSe3One None] s)"
proof -
  let ?st0 = "\<lparr>best = Fin 0, non0 = 0, ibest = 0\<rparr>"
  have none: "\<forall>s\<in>set hs. \<not> fgt s (Fin 0)"
    using assms by (simp add: fle_def)
  then have "\<forall>j. 0 \<le> j \<and> j < length hs \<longrightarrow> \<not> fgt (hs ! j) (best ?st0)"
    by simp
  from score_loop_unbeaten [OF this]
  have sel: "ibest (find_best hs) = 0" "best (find_best hs) = Fin 0"
    by (simp_all add: find_best_def)
  have "filter (\<lambda>s. fgt s (Fin 0)) hs = []"
    using none by (simp add: filter_empty_conv)
  then have cnt: "non0 (find_best hs) = 0"
    by (simp add: non0_counts_positive)
  have "prefix (fst (run_best w hs ([], s)))
      [Finish, HypoBestSetCount 0, Measure runSe3One None]"
    using run_best_prefix [of w hs "([], s)"] sel(1) by auto
  moreover have "(\<exists>s'. snd (run_best w hs ([], s)) = Inr s') \<longrightarrow>
      fst (run_best w hs ([], s)) = [Finish, HypoBestSetCount 0, Measure runSe3One None]"
    using run_best_returns [of w hs "([], s)"] sel(1) by auto
  moreover have "(\<forall>c x. \<exists>y. w c x = Inr y) \<longrightarrow> (\<exists>s'. snd (run_best w hs ([], s)) = Inr s')"
    using run_best_total [of w hs "([], s)"] by blast
  moreover have "run_best w hs ([], s) =
      (calls_made w [Finish, HypoBestSetCount 0, Measure runSe3One None] s,
       run_calls w [Finish, HypoBestSetCount 0, Measure runSe3One None] s)"
    using run_best_performs [of w hs "([], s)"] sel(1) by simp
  ultimately show ?thesis
    using sel cnt by simp
qed

theorem nonpositive_scores_select_first_witness:
  "ibest (find_best negative_scores) = 0 \<and> best (find_best negative_scores) = Fin 0
   \<and> non0 (find_best negative_scores) = 0
   \<and> fst (run_best steady negative_scores ([], 0)) =
        [Finish, HypoBestSetCount 0, Measure runSe3One None]
   \<and> snd (run_best steady negative_scores ([], 0)) = Inr 3
   \<and> \<not> first_argmax negative_scores 0 \<and> first_argmax negative_scores 1"
proof -
  have h: "\<forall>s\<in>set negative_scores. fle s (Fin 0)"
    by (simp add: negative_scores_def fle_def)
  have ok: "\<forall>c x. \<exists>y. steady c x = Inr y"
    by (simp add: steady_def)
  have am: "\<not> first_argmax negative_scores 0 \<and> first_argmax negative_scores 1"
    by (simp add: first_argmax_def negative_scores_def fle_def)
  have ran: "run_calls steady [Finish, HypoBestSetCount 0, Measure runSe3One None] 0 = Inr 3"
    by (simp add: steady_def)
  from nonpositive_scores_select_first [OF h, of steady 0] ok am ran show ?thesis
    by auto
qed

section \<open>Properties of the device loop\<close>







end
